theory Spec2Isabelle
  imports Main
begin

unbundle bit_operations_syntax

section \<open>Machine arithmetic on \<open>std::size_t\<close>\<close>

text \<open>
  \<open>std::size_t\<close> is modelled as a natural number below \<open>2 ^ 64\<close>; every addition,
  multiplication, shift and decrement of the source is written with its wrap-around.
\<close>

definition wrap :: "nat \<Rightarrow> nat" where
  "wrap x = x mod 2 ^ 64"

definition size_dec :: "nat \<Rightarrow> nat" where
  "size_dec n = (if n = 0 then 2 ^ 64 - 1 else n - 1)"

definition m_end :: nat where
  "m_end = 2 ^ 64 - 1"

section \<open>policy.h\<close>

definition LinearProbing_next :: "nat \<Rightarrow> nat \<Rightarrow> nat \<Rightarrow> nat" where
  "LinearProbing_next start step sz = wrap (start + step) AND size_dec sz"

definition QuadraticProbing_next :: "nat \<Rightarrow> nat \<Rightarrow> nat \<Rightarrow> nat" where
  "QuadraticProbing_next start step sz =
     (if sz AND size_dec sz = 0
      then wrap (start + drop_bit 1 (wrap (wrap (step * step) + step))) AND size_dec sz
      else wrap (start + wrap (step * step)) mod sz)"

definition MaskRangeHashing_hash :: "nat \<Rightarrow> nat \<Rightarrow> nat" where
  "MaskRangeHashing_hash idx sz = idx AND size_dec sz"

definition need_rehash :: "nat \<Rightarrow> nat \<Rightarrow> bool" where
  "need_rehash sz bucket_count = (drop_bit 1 bucket_count < sz)"

definition buckets_number :: "nat \<Rightarrow> nat" where
  "buckets_number desired_size = wrap (push_bit 1 desired_size)"

partial_function (option) new_size :: "nat \<Rightarrow> nat \<Rightarrow> nat option" where
  "new_size desired_size current_size =
     (if current_size < desired_size
      then new_size desired_size (wrap (push_bit 1 current_size))
      else Some current_size)"

datatype CollisionPolicy = LinearProbing | QuadraticProbing

fun CollisionPolicy_next :: "CollisionPolicy \<Rightarrow> nat \<Rightarrow> nat \<Rightarrow> nat \<Rightarrow> nat" where
  "CollisionPolicy_next LinearProbing start step sz = LinearProbing_next start step sz"
| "CollisionPolicy_next QuadraticProbing start step sz = QuadraticProbing_next start step sz"

section \<open>hash_map.h: the slot array\<close>

datatype ('k, 'v) Element =
  Empty | Erased | Node (node_value: "'k \<times> 'v") (node_next: nat) (node_prev: nat)

fun is_used :: "('k, 'v) Element \<Rightarrow> bool" where
  "is_used (Node kv nx pv) = True"
| "is_used e = False"

fun is_empty :: "('k, 'v) Element \<Rightarrow> bool" where
  "is_empty Empty = True"
| "is_empty e = False"

record ('k, 'v) HashMap =
  m_data :: "('k, 'v) Element list"
  m_size :: nat
  m_begin :: nat

text \<open>
  What the C++ leaves undefined is a value of the model: an index past the end of
  \<open>m_data\<close>, and \<open>std::get<Node>\<close> on a slot that holds no node. A loop that never
  exits is the value \<open>None\<close>.
\<close>

datatype fault = OutOfRange | BadVariantAccess

type_synonym 'a result = "(fault + 'a) option"

definition bind_res :: "'a result \<Rightarrow> ('a \<Rightarrow> 'b result) \<Rightarrow> 'b result" where
  "bind_res m f = (case m of None \<Rightarrow> None | Some (Inl e) \<Rightarrow> Some (Inl e) | Some (Inr x) \<Rightarrow> f x)"

definition lift_res :: "fault + 'a \<Rightarrow> 'a result" where
  "lift_res x = Some x"

definition get_node :: "('k, 'v) Element list \<Rightarrow> nat \<Rightarrow> fault + ('k, 'v) Element" where
  "get_node d i =
     (if length d \<le> i then Inl OutOfRange
      else if is_used (d ! i) then Inr (d ! i) else Inl BadVariantAccess)"

definition set_next :: "('k, 'v) Element list \<Rightarrow> nat \<Rightarrow> nat \<Rightarrow> fault + ('k, 'v) Element list" where
  "set_next d i v =
     (case get_node d i of Inl e \<Rightarrow> Inl e
      | Inr n \<Rightarrow> Inr (d[i := Node (node_value n) v (node_prev n)]))"

definition set_prev :: "('k, 'v) Element list \<Rightarrow> nat \<Rightarrow> nat \<Rightarrow> fault + ('k, 'v) Element list" where
  "set_prev d i v =
     (case get_node d i of Inl e \<Rightarrow> Inl e
      | Inr n \<Rightarrow> Inr (d[i := Node (node_value n) (node_next n) v]))"

definition set_mapped :: "('k, 'v) Element list \<Rightarrow> nat \<Rightarrow> 'v \<Rightarrow> fault + ('k, 'v) Element list" where
  "set_mapped d i v =
     (case get_node d i of Inl e \<Rightarrow> Inl e
      | Inr n \<Rightarrow> Inr (d[i := Node (fst (node_value n), v) (node_next n) (node_prev n)]))"

definition reset :: "('k, 'v) HashMap \<Rightarrow> ('k, 'v) HashMap" where
  "reset t = t\<lparr>m_begin := m_end, m_size := 0\<rparr>"

definition HashMap_new :: "nat \<Rightarrow> ('k, 'v) HashMap option" where
  "HashMap_new expected_max_size =
     (case new_size (buckets_number expected_max_size) 64 of None \<Rightarrow> None
      | Some n \<Rightarrow> Some (reset \<lparr>m_data = replicate n Empty, m_size = 0, m_begin = m_end\<rparr>))"

definition size_of :: "('k, 'v) HashMap \<Rightarrow> nat" where
  "size_of t = m_size t"

definition bucket_count :: "('k, 'v) HashMap \<Rightarrow> nat" where
  "bucket_count t = length (m_data t)"

definition index :: "('k \<Rightarrow> nat) \<Rightarrow> ('k, 'v) Element list \<Rightarrow> 'k \<Rightarrow> nat" where
  "index hf d key = MaskRangeHashing_hash (hf key) (length d)"

definition link_nodes :: "('k, 'v) HashMap \<Rightarrow> nat \<Rightarrow> nat \<Rightarrow> fault + ('k, 'v) HashMap" where
  "link_nodes t left right =
     (case (if left \<noteq> m_end
            then (case set_next (m_data t) left right of Inl e \<Rightarrow> Inl e
                  | Inr d \<Rightarrow> Inr (t\<lparr>m_data := d\<rparr>))
            else Inr (t\<lparr>m_begin := right\<rparr>)) of
        Inl e \<Rightarrow> Inl e
      | Inr t1 \<Rightarrow>
          if right \<noteq> m_end
          then (case set_prev (m_data t1) right left of Inl e \<Rightarrow> Inl e
                | Inr d \<Rightarrow> Inr (t1\<lparr>m_data := d\<rparr>))
          else Inr t1)"

definition remove_node :: "('k, 'v) HashMap \<Rightarrow> nat \<Rightarrow> fault + ('k, 'v) HashMap" where
  "remove_node t pos =
     (case get_node (m_data t) pos of Inl e \<Rightarrow> Inl e
      | Inr n \<Rightarrow>
          (case link_nodes t (node_prev n) (node_next n) of Inl e \<Rightarrow> Inl e
           | Inr t1 \<Rightarrow>
               Inr (t1\<lparr>m_data := (m_data t1)[pos := Erased], m_size := size_dec (m_size t1)\<rparr>)))"

definition insert_at :: "('k, 'v) HashMap \<Rightarrow> nat \<Rightarrow> 'k \<times> 'v \<Rightarrow> fault + ('k, 'v) HashMap" where
  "insert_at t pos kv =
     (if length (m_data t) \<le> pos then Inl OutOfRange
      else
        let d1 = (m_data t)[pos := Node kv (m_begin t) m_end] in
        (case (if m_begin t \<noteq> m_end then set_prev d1 (m_begin t) pos else Inr d1) of
           Inl e \<Rightarrow> Inl e
         | Inr d2 \<Rightarrow> Inr (t\<lparr>m_data := d2, m_begin := pos, m_size := wrap (m_size t + 1)\<rparr>)))"

partial_function (option) find_pos_loop ::
  "CollisionPolicy \<Rightarrow> ('k, 'v) Element list \<Rightarrow> 'k \<Rightarrow> bool \<Rightarrow> nat \<Rightarrow> nat \<Rightarrow> nat \<Rightarrow> nat \<Rightarrow> nat result"
where
  "find_pos_loop cp d key seek_erased start first_erased step i =
     (if length d \<le> i then Some (Inl OutOfRange)
      else if is_empty (d ! i)
      then Some (Inr (if first_erased = length d then i else first_erased))
      else if is_used (d ! i) \<and> fst (node_value (d ! i)) = key then Some (Inr i)
      else find_pos_loop cp d key seek_erased start
             (if \<not> is_used (d ! i) \<and> seek_erased \<and> first_erased = length d then i
              else first_erased)
             (wrap (step + 1))
             (CollisionPolicy_next cp start (wrap (step + 1)) (length d)))"

definition find_pos ::
  "CollisionPolicy \<Rightarrow> ('k \<Rightarrow> nat) \<Rightarrow> ('k, 'v) HashMap \<Rightarrow> 'k \<Rightarrow> bool \<Rightarrow> nat result" where
  "find_pos cp hf t key seek_erased =
     find_pos_loop cp (m_data t) key seek_erased (index hf (m_data t) key)
       (length (m_data t)) 0 (index hf (m_data t) key)"

definition search :: "CollisionPolicy \<Rightarrow> ('k \<Rightarrow> nat) \<Rightarrow> ('k, 'v) HashMap \<Rightarrow> 'k \<Rightarrow> nat result" where
  "search cp hf t key = find_pos cp hf t key False"

definition find_insertion_pos ::
  "CollisionPolicy \<Rightarrow> ('k \<Rightarrow> nat) \<Rightarrow> ('k, 'v) HashMap \<Rightarrow> 'k \<Rightarrow> nat result" where
  "find_insertion_pos cp hf t key = find_pos cp hf t key True"

definition used_at :: "('k, 'v) Element list \<Rightarrow> nat \<Rightarrow> bool result" where
  "used_at d pos = (if length d \<le> pos then Some (Inl OutOfRange) else Some (Inr (is_used (d ! pos))))"

definition find_hm :: "CollisionPolicy \<Rightarrow> ('k \<Rightarrow> nat) \<Rightarrow> ('k, 'v) HashMap \<Rightarrow> 'k \<Rightarrow> nat result" where
  "find_hm cp hf t key =
     bind_res (search cp hf t key) (\<lambda>pos.
     bind_res (used_at (m_data t) pos) (\<lambda>u. Some (Inr (if u then pos else m_end))))"

definition contains :: "CollisionPolicy \<Rightarrow> ('k \<Rightarrow> nat) \<Rightarrow> ('k, 'v) HashMap \<Rightarrow> 'k \<Rightarrow> bool result" where
  "contains cp hf t key = bind_res (search cp hf t key) (\<lambda>pos. used_at (m_data t) pos)"

definition erase ::
  "CollisionPolicy \<Rightarrow> ('k \<Rightarrow> nat) \<Rightarrow> ('k, 'v) HashMap \<Rightarrow> 'k \<Rightarrow> (('k, 'v) HashMap \<times> nat) result" where
  "erase cp hf t key =
     bind_res (search cp hf t key) (\<lambda>pos.
     bind_res (used_at (m_data t) pos) (\<lambda>u.
       if u then bind_res (lift_res (remove_node t pos)) (\<lambda>t'. Some (Inr (t', 1)))
       else Some (Inr (t, 0))))"

partial_function (option) free_pos_loop ::
  "CollisionPolicy \<Rightarrow> ('k, 'v) Element list \<Rightarrow> nat \<Rightarrow> nat \<Rightarrow> nat \<Rightarrow> nat result" where
  "free_pos_loop cp d start step pos =
     (if length d \<le> pos then Some (Inl OutOfRange)
      else if is_used (d ! pos)
      then free_pos_loop cp d start (wrap (step + 1))
             (CollisionPolicy_next cp start (wrap (step + 1)) (length d))
      else Some (Inr pos))"

partial_function (option) rehash_loop ::
  "CollisionPolicy \<Rightarrow> ('k \<Rightarrow> nat) \<Rightarrow> ('k, 'v) Element list \<Rightarrow> ('k, 'v) HashMap \<Rightarrow> nat \<Rightarrow>
   ('k, 'v) HashMap result" where
  "rehash_loop cp hf old t it =
     (if it = m_end then Some (Inr t)
      else case get_node old it of Inl e \<Rightarrow> Some (Inl e)
      | Inr n \<Rightarrow>
          (case free_pos_loop cp (m_data t) (index hf (m_data t) (fst (node_value n))) 0
                  (index hf (m_data t) (fst (node_value n))) of
             None \<Rightarrow> None
           | Some (Inl e) \<Rightarrow> Some (Inl e)
           | Some (Inr pos) \<Rightarrow>
               (case insert_at t pos (node_value n) of Inl e \<Rightarrow> Some (Inl e)
                | Inr t' \<Rightarrow> rehash_loop cp hf old t' (node_next n))))"

definition rehash ::
  "CollisionPolicy \<Rightarrow> ('k \<Rightarrow> nat) \<Rightarrow> ('k, 'v) HashMap \<Rightarrow> nat \<Rightarrow> ('k, 'v) HashMap result" where
  "rehash cp hf t count =
     (case new_size count (length (m_data t)) of None \<Rightarrow> None
      | Some n \<Rightarrow>
          rehash_loop cp hf (m_data t) (reset (t\<lparr>m_data := replicate n Empty\<rparr>)) (m_begin t))"

definition reserve ::
  "CollisionPolicy \<Rightarrow> ('k \<Rightarrow> nat) \<Rightarrow> ('k, 'v) HashMap \<Rightarrow> nat \<Rightarrow> ('k, 'v) HashMap result" where
  "reserve cp hf t count = rehash cp hf t (buckets_number count)"

definition try_emplace_impl ::
  "CollisionPolicy \<Rightarrow> ('k \<Rightarrow> nat) \<Rightarrow> ('k, 'v) HashMap \<Rightarrow> 'k \<Rightarrow> 'v \<Rightarrow>
   (('k, 'v) HashMap \<times> nat) result" where
  "try_emplace_impl cp hf t key v =
     bind_res (if need_rehash (wrap (m_size t + 1)) (length (m_data t))
               then reserve cp hf t (wrap (m_size t + 1)) else Some (Inr t)) (\<lambda>t1.
     bind_res (find_insertion_pos cp hf t1 key) (\<lambda>pos.
     bind_res (used_at (m_data t1) pos) (\<lambda>u.
       if \<not> u then bind_res (lift_res (insert_at t1 pos (key, v))) (\<lambda>t2. Some (Inr (t2, pos)))
       else Some (Inr (t1, pos)))))"

definition generic_try_emplace ::
  "CollisionPolicy \<Rightarrow> ('k \<Rightarrow> nat) \<Rightarrow> ('k, 'v) HashMap \<Rightarrow> 'k \<Rightarrow> 'v \<Rightarrow>
   (('k, 'v) HashMap \<times> nat \<times> bool) result" where
  "generic_try_emplace cp hf t key v =
     (let old_size = m_size t in
      bind_res (try_emplace_impl cp hf t key v) (\<lambda>(t', pos).
        Some (Inr (t', pos, old_size \<noteq> m_size t'))))"

definition insert_hm ::
  "CollisionPolicy \<Rightarrow> ('k \<Rightarrow> nat) \<Rightarrow> ('k, 'v) HashMap \<Rightarrow> 'k \<times> 'v \<Rightarrow>
   (('k, 'v) HashMap \<times> nat \<times> bool) result" where
  "insert_hm cp hf t kv = generic_try_emplace cp hf t (fst kv) (snd kv)"

definition generic_insert_or_assign ::
  "CollisionPolicy \<Rightarrow> ('k \<Rightarrow> nat) \<Rightarrow> ('k, 'v) HashMap \<Rightarrow> 'k \<Rightarrow> 'v \<Rightarrow>
   (('k, 'v) HashMap \<times> nat \<times> bool) result" where
  "generic_insert_or_assign cp hf t key v =
     bind_res (generic_try_emplace cp hf t key v) (\<lambda>(t', pos, inserted).
       if \<not> inserted
       then bind_res (lift_res (set_mapped (m_data t') pos v)) (\<lambda>d.
              Some (Inr (t'\<lparr>m_data := d\<rparr>, pos, inserted)))
       else Some (Inr (t', pos, inserted)))"

partial_function (option) clear_loop ::
  "('k, 'v) Element list \<Rightarrow> nat \<Rightarrow> ('k, 'v) Element list result" where
  "clear_loop d it =
     (if it = m_end then Some (Inr d)
      else case get_node d it of Inl e \<Rightarrow> Some (Inl e)
      | Inr n \<Rightarrow> clear_loop (d[it := Empty]) (node_next n))"

definition clear :: "('k, 'v) HashMap \<Rightarrow> ('k, 'v) HashMap result" where
  "clear t = bind_res (clear_loop (m_data t) (m_begin t)) (\<lambda>d. Some (Inr (reset (t\<lparr>m_data := d\<rparr>))))"

partial_function (option) erase_range_loop ::
  "('k, 'v) HashMap \<Rightarrow> nat \<Rightarrow> nat \<Rightarrow> ('k, 'v) HashMap result" where
  "erase_range_loop t it lst =
     (if it = lst then Some (Inr t)
      else case get_node (m_data t) it of Inl e \<Rightarrow> Some (Inl e)
      | Inr n \<Rightarrow>
          erase_range_loop (t\<lparr>m_data := (m_data t)[it := Erased], m_size := size_dec (m_size t)\<rparr>)
            (node_next n) lst)"

definition erase_range ::
  "('k, 'v) HashMap \<Rightarrow> nat \<Rightarrow> nat \<Rightarrow> (('k, 'v) HashMap \<times> nat) result" where
  "erase_range t first lst =
     bind_res (lift_res (get_node (m_data t) first)) (\<lambda>n.
     bind_res (lift_res (link_nodes t (node_prev n) lst)) (\<lambda>t1.
     bind_res (erase_range_loop t1 first lst) (\<lambda>t2. Some (Inr (t2, lst)))))"

definition erase_pos :: "('k, 'v) HashMap \<Rightarrow> nat \<Rightarrow> (('k, 'v) HashMap \<times> nat) result" where
  "erase_pos t pos =
     bind_res (lift_res (get_node (m_data t) pos)) (\<lambda>n.
     bind_res (lift_res (remove_node t pos)) (\<lambda>t'. Some (Inr (t', node_next n))))"

partial_function (option) items_loop ::
  "('k, 'v) Element list \<Rightarrow> nat \<Rightarrow> ('k \<times> 'v) list \<Rightarrow> ('k \<times> 'v) list result" where
  "items_loop d it acc =
     (if it = m_end then Some (Inr (rev acc))
      else case get_node d it of Inl e \<Rightarrow> Some (Inl e)
      | Inr n \<Rightarrow> items_loop d (node_next n) (node_value n # acc))"

definition items :: "('k, 'v) HashMap \<Rightarrow> ('k \<times> 'v) list result" where
  "items t = items_loop (m_data t) (m_begin t) []"

partial_function (option) equal_loop ::
  "CollisionPolicy \<Rightarrow> ('k \<Rightarrow> nat) \<Rightarrow> ('k, 'v) Element list \<Rightarrow> ('k, 'v) HashMap \<Rightarrow> nat \<Rightarrow> bool result"
where
  "equal_loop cp hf ld rhs it =
     (if it = m_end then Some (Inr True)
      else case get_node ld it of Inl e \<Rightarrow> Some (Inl e)
      | Inr n \<Rightarrow>
          (case find_hm cp hf rhs (fst (node_value n)) of None \<Rightarrow> None
           | Some (Inl e) \<Rightarrow> Some (Inl e)
           | Some (Inr pos) \<Rightarrow>
               if pos = m_end then Some (Inr False)
               else (case get_node (m_data rhs) pos of Inl e \<Rightarrow> Some (Inl e)
                     | Inr rn \<Rightarrow>
                         if \<not> (snd (node_value rn) = snd (node_value n)) then Some (Inr False)
                         else equal_loop cp hf ld rhs (node_next n))))"

definition HashMap_equal ::
  "CollisionPolicy \<Rightarrow> ('k \<Rightarrow> nat) \<Rightarrow> ('k, 'v) HashMap \<Rightarrow> ('k, 'v) HashMap \<Rightarrow> bool result" where
  "HashMap_equal cp hf lhs rhs =
     (if m_size lhs \<noteq> m_size rhs then Some (Inr False)
      else equal_loop cp hf (m_data lhs) rhs (m_begin lhs))"

section \<open>Specification-level definitions\<close>

definition valid_size :: "nat \<Rightarrow> bool" where
  "valid_size n = (\<exists>k\<le>63. n = 2 ^ k)"

text \<open>
  The indices a probe loop visits: \<open>start\<close> at step 0, then
  \<open>CollisionPolicy::next(start, step, size)\<close> for the steps \<open>1, 2, \<dots>, count - 1\<close>.
\<close>

definition probe_sequence :: "CollisionPolicy \<Rightarrow> nat \<Rightarrow> nat \<Rightarrow> nat \<Rightarrow> nat list" where
  "probe_sequence cp start sz count =
     (if count = 0 then [] else start # map (\<lambda>step. CollisionPolicy_next cp start step sz) [1..<count])"

definition tri :: "nat \<Rightarrow> nat" where
  "tri j = (j * j + j) div 2"

definition stops :: "('k, 'v) Element list \<Rightarrow> 'k \<Rightarrow> nat \<Rightarrow> bool" where
  "stops d key i = (is_empty (d ! i) \<or> (is_used (d ! i) \<and> fst (node_value (d ! i)) = key))"

definition used_idx :: "('k, 'v) Element list \<Rightarrow> nat set" where
  "used_idx d = {i. i < length d \<and> is_used (d ! i)}"

definition key_at :: "('k, 'v) Element list \<Rightarrow> nat \<Rightarrow> 'k" where
  "key_at d i = fst (node_value (d ! i))"

fun strip :: "('k, 'v) Element \<Rightarrow> ('k, 'v) Element" where
  "strip (Node kv nx pv) = Node kv 0 0"
| "strip e = e"

definition first_or :: "nat list \<Rightarrow> nat \<Rightarrow> nat" where
  "first_or ps fin = (case ps of [] \<Rightarrow> fin | q # qs \<Rightarrow> q)"

definition last_or :: "nat list \<Rightarrow> nat \<Rightarrow> nat" where
  "last_or ps prv = (if ps = [] then prv else last ps)"

fun fwd :: "('k, 'v) Element list \<Rightarrow> nat list \<Rightarrow> nat \<Rightarrow> bool" where
  "fwd d [] fin = True"
| "fwd d (p # ps) fin = (node_next (d ! p) = first_or ps fin \<and> fwd d ps fin)"

fun bwd :: "('k, 'v) Element list \<Rightarrow> nat \<Rightarrow> nat list \<Rightarrow> bool" where
  "bwd d prv [] = True"
| "bwd d prv (p # ps) = (node_prev (d ! p) = prv \<and> bwd d p ps)"

definition traversal :: "('k, 'v) HashMap \<Rightarrow> nat list \<Rightarrow> bool" where
  "traversal t ps =
     (m_begin t = first_or ps m_end \<and> fwd (m_data t) ps m_end \<and> bwd (m_data t) m_end ps \<and>
      distinct ps \<and> set ps = used_idx (m_data t))"

definition keys_distinct :: "('k, 'v) Element list \<Rightarrow> bool" where
  "keys_distinct d = (\<forall>i\<in>used_idx d. \<forall>j\<in>used_idx d. key_at d i = key_at d j \<longrightarrow> i = j)"

definition probe_ok :: "CollisionPolicy \<Rightarrow> ('k \<Rightarrow> nat) \<Rightarrow> ('k, 'v) Element list \<Rightarrow> bool" where
  "probe_ok cp hf d =
     (\<forall>i\<in>used_idx d. \<exists>j<length d.
        CollisionPolicy_next cp (index hf d (key_at d i)) j (length d) = i \<and>
        (\<forall>m<j. \<not> is_empty (d ! CollisionPolicy_next cp (index hf d (key_at d i)) m (length d))))"

definition invar :: "CollisionPolicy \<Rightarrow> ('k \<Rightarrow> nat) \<Rightarrow> ('k, 'v) HashMap \<Rightarrow> bool" where
  "invar cp hf t =
     (valid_size (length (m_data t)) \<and> 64 \<le> length (m_data t) \<and>
      m_size t = card (used_idx (m_data t)) \<and> 2 * m_size t \<le> length (m_data t) \<and>
      (\<exists>ps. traversal t ps) \<and> keys_distinct (m_data t) \<and> probe_ok cp hf (m_data t))"

lemma and_size_dec:
  assumes "valid_size n"
  shows "x AND size_dec n = x mod n"
proof -
  from assms obtain k where k: "k \<le> 63" "n = 2 ^ k" by (auto simp: valid_size_def)
  have "size_dec n = mask k" using k by (simp add: size_dec_def mask_eq_exp_minus_1)
  then show ?thesis using k by (simp add: take_bit_eq_mask [symmetric] take_bit_eq_mod)
qed

lemma valid_size_pos: "valid_size n \<Longrightarrow> 0 < n"
  by (auto simp: valid_size_def)

lemma valid_size_dvd63:
  assumes "valid_size n"
  shows "n dvd 2 ^ 63"
proof -
  from assms obtain k where k: "k \<le> 63" "n = 2 ^ k" by (auto simp: valid_size_def)
  have "(2::nat) ^ k dvd 2 ^ 63" using k(1) by (rule le_imp_power_dvd)
  then show ?thesis using k(2) by simp
qed

lemma valid_size_dvd:
  assumes "valid_size n"
  shows "n dvd 2 ^ 64"
proof -
  have "(2::nat) ^ 63 dvd 2 ^ 64" by (rule le_imp_power_dvd) simp
  then show ?thesis using valid_size_dvd63 [OF assms] by (rule dvd_trans [rotated])
qed

lemma valid_size_le:
  assumes "valid_size n"
  shows "n \<le> 2 ^ 63"
  using valid_size_dvd63 [OF assms] by (rule dvd_imp_le) simp

lemma wrap_mod: "valid_size n \<Longrightarrow> wrap x mod n = x mod n"
  unfolding wrap_def by (rule mod_mod_cancel) (rule valid_size_dvd)

lemma LinearProbing_next_eq:
  "valid_size n \<Longrightarrow> LinearProbing_next start step n = (start + step) mod n"
  by (simp add: LinearProbing_next_def and_size_dec wrap_mod)

lemma pow2_and_dec: "valid_size n \<Longrightarrow> n AND size_dec n = 0"
  by (simp add: and_size_dec)

lemma drop_bit_wrap_mod:
  assumes "valid_size n"
  shows "drop_bit 1 (wrap x) mod n = (x div 2) mod n"
proof -
  have "drop_bit 1 (wrap x) = (x div 2) mod 2 ^ 63"
    using div_exp_mod_exp_eq [of x 1 63] by (simp add: wrap_def drop_bit_eq_div)
  then show ?thesis
    using mod_mod_cancel [OF valid_size_dvd63 [OF assms]] by simp
qed

lemma QuadraticProbing_next_eq:
  assumes "valid_size n"
  shows "QuadraticProbing_next start step n = (start + (step * step + step) div 2) mod n"
proof -
  have w: "wrap (wrap (step * step) + step) = wrap (step * step + step)"
    by (simp add: wrap_def mod_simps)
  have "QuadraticProbing_next start step n =
      (start + drop_bit 1 (wrap (step * step + step))) mod n"
    using assms by (simp add: QuadraticProbing_next_def pow2_and_dec and_size_dec wrap_mod w)
  also have "\<dots> = (start + (step * step + step) div 2) mod n"
    by (metis mod_add_right_eq drop_bit_wrap_mod [OF assms])
  finally show ?thesis .
qed

lemma two_tri: "2 * tri j = j * j + j"
  by (simp add: tri_def)

lemma tri_mono: "i \<le> j \<Longrightarrow> tri i \<le> tri j"
  unfolding tri_def by (intro div_le_mono add_mono mult_le_mono)

lemma tri_diff:
  assumes "i \<le> j"
  shows "2 * (tri j - tri i) = (j - i) * (j + i + 1)"
proof -
  obtain d where d: "j = i + d" using assms by (auto simp: le_iff_add)
  have "2 * (tri j - tri i) = 2 * tri j - 2 * tri i" by simp
  also have "\<dots> = (j * j + j) - (i * i + i)" by (simp only: two_tri)
  also have "\<dots> = (j - i) * (j + i + 1)" by (simp add: d algebra_simps)
  finally show ?thesis .
qed

lemma tri_inj_aux:
  assumes "i < j" "j < 2 ^ k" "(s + tri i) mod 2 ^ k = (s + tri j) mod 2 ^ k"
  shows False
proof -
  have le: "s + tri i \<le> s + tri j" using assms(1) by (simp add: tri_mono)
  have "(2::nat) ^ k dvd (s + tri j) - (s + tri i)"
    using mod_eq_dvd_iff_nat [OF le, of "2 ^ k"] assms(3) by simp
  then have "(2::nat) ^ k dvd tri j - tri i" by simp
  then have "2 * (2::nat) ^ k dvd 2 * (tri j - tri i)" by simp
  moreover have "2 * (tri j - tri i) = (j - i) * (j + i + 1)"
    using assms(1) by (intro tri_diff) simp
  ultimately have dv: "(2::nat) ^ Suc k dvd (j - i) * (j + i + 1)"
    by (simp only: power_Suc)
  show False
  proof (cases "odd (j - i)")
    case True
    then have "coprime ((2::nat) ^ Suc k) (j - i)" by simp
    then have "(2::nat) ^ Suc k dvd j + i + 1"
      using dv by (simp only: coprime_dvd_mult_right_iff)
    then have "(2::nat) ^ Suc k \<le> j + i + 1" by (rule dvd_imp_le) simp
    then show False using assms(1,2) by simp
  next
    case False
    then have "odd (j + i + 1)" using assms(1) by auto
    then have "coprime ((2::nat) ^ Suc k) (j + i + 1)" by simp
    then have "(2::nat) ^ Suc k dvd j - i"
      using dv by (simp only: coprime_dvd_mult_left_iff)
    then have "(2::nat) ^ Suc k \<le> j - i" by (rule dvd_imp_le) (use assms(1) in simp)
    then show False using assms(1,2) by simp
  qed
qed

lemma lin_inj_aux:
  assumes "i < j" "j < n" "(s + i) mod n = (s + j) mod (n::nat)"
  shows False
proof -
  have le: "s + i \<le> s + j" using assms(1) by simp
  have "n dvd (s + j) - (s + i)"
    using mod_eq_dvd_iff_nat [OF le, of n] assms(3) by simp
  then have "n dvd j - i" by simp
  then have "n \<le> j - i" by (rule dvd_imp_le) (use assms(1) in simp)
  then show False using assms by simp
qed

lemma probe_less: "valid_size n \<Longrightarrow> CollisionPolicy_next cp start step n < n"
  by (cases cp) (simp_all add: LinearProbing_next_eq QuadraticProbing_next_eq valid_size_pos)

lemma probe_zero: "valid_size n \<Longrightarrow> start < n \<Longrightarrow> CollisionPolicy_next cp start 0 n = start"
  by (cases cp) (simp_all add: LinearProbing_next_eq QuadraticProbing_next_eq)

lemma probe_inj_aux:
  assumes "valid_size n" "i < j" "j < n"
    "CollisionPolicy_next cp start i n = CollisionPolicy_next cp start j n"
  shows False
proof (cases cp)
  case LinearProbing
  then show False using assms lin_inj_aux [of i j n start] by (simp add: LinearProbing_next_eq)
next
  case QuadraticProbing
  from assms(1) obtain k where k: "n = 2 ^ k" by (auto simp: valid_size_def)
  show False using QuadraticProbing assms tri_inj_aux [of i j k start]
    by (simp add: QuadraticProbing_next_eq tri_def k)
qed

lemma probe_inj:
  assumes "valid_size n" "i < n" "j < n"
    "CollisionPolicy_next cp start i n = CollisionPolicy_next cp start j n"
  shows "i = j"
proof (rule ccontr)
  assume "i \<noteq> j"
  then consider "i < j" | "j < i" by linarith
  then show False
    using probe_inj_aux [OF assms(1), of i j cp start] probe_inj_aux [OF assms(1), of j i cp start]
      assms(2-4) by cases auto
qed

lemma probe_inj_on: "valid_size n \<Longrightarrow> inj_on (\<lambda>j. CollisionPolicy_next cp start j n) {..<n}"
  by (auto intro!: inj_onI dest: probe_inj)

lemma probe_surj:
  assumes "valid_size n"
  shows "(\<lambda>j. CollisionPolicy_next cp start j n) ` {..<n} = {..<n}"
proof (rule card_subset_eq)
  show "finite {..<n}" by simp
  show "(\<lambda>j. CollisionPolicy_next cp start j n) ` {..<n} \<subseteq> {..<n}"
    using probe_less [OF assms] by auto
  show "card ((\<lambda>j. CollisionPolicy_next cp start j n) ` {..<n}) = card {..<n}"
    by (rule card_image) (rule probe_inj_on [OF assms])
qed

lemma probe_reaches:
  assumes "valid_size n" "i < n"
  shows "\<exists>j<n. CollisionPolicy_next cp start j n = i"
proof -
  have "i \<in> (\<lambda>j. CollisionPolicy_next cp start j n) ` {..<n}"
    using assms by (simp add: probe_surj)
  then show ?thesis by auto
qed

lemma wrap_small: "x < 2 ^ 64 \<Longrightarrow> wrap x = x"
  by (simp add: wrap_def)

lemma wrap_step:
  assumes "valid_size n" "j < n"
  shows "wrap (j + 1) = j + 1"
proof -
  have "n \<le> 2 ^ 63" using assms(1) by (rule valid_size_le)
  then have "j + 1 < 2 ^ 64" using assms(2) by simp
  then show ?thesis by (rule wrap_small)
qed

lemma find_pos_loop_spec:
  assumes v: "valid_size (length d)"
    and "j \<le> e" "e < length d"
    and "\<forall>m. j \<le> m \<and> m < e \<longrightarrow> \<not> stops d key (CollisionPolicy_next cp start m (length d))"
    and "stops d key (CollisionPolicy_next cp start e (length d))"
  shows "\<exists>r. find_pos_loop cp d key seek start fe j (CollisionPolicy_next cp start j (length d))
            = Some (Inr r) \<and>
          (if is_empty (d ! CollisionPolicy_next cp start e (length d))
           then (if fe \<noteq> length d then r = fe
                 else if seek
                 then (\<exists>m. j \<le> m \<and> m \<le> e \<and> r = CollisionPolicy_next cp start m (length d) \<and>
                        \<not> is_used (d ! r) \<and>
                        (\<forall>m'. j \<le> m' \<and> m' < m \<longrightarrow>
                           is_used (d ! CollisionPolicy_next cp start m' (length d))))
                 else r = CollisionPolicy_next cp start e (length d))
           else r = CollisionPolicy_next cp start e (length d))"
  using assms(2-)
proof (induction "e - j" arbitrary: j fe)
  case 0
  then have je: "j = e" by simp
  let ?i = "CollisionPolicy_next cp start e (length d)"
  have il: "?i < length d" using v by (rule probe_less)
  show ?case
  proof (cases "is_empty (d ! ?i)")
    case True
    then have nu: "\<not> is_used (d ! ?i)" by (cases "d ! ?i") simp_all
    show ?thesis
      using True il nu unfolding je
      by (subst find_pos_loop.simps) auto
  next
    case False
    then have "is_used (d ! ?i) \<and> fst (node_value (d ! ?i)) = key"
      using "0.prems"(4) by (simp add: stops_def)
    then show ?thesis
      using False il unfolding je
      by (subst find_pos_loop.simps) auto
  qed
next
  case (Suc k)
  let ?i = "CollisionPolicy_next cp start j (length d)"
  let ?i' = "CollisionPolicy_next cp start (j + 1) (length d)"
  let ?fe' = "if \<not> is_used (d ! ?i) \<and> seek \<and> fe = length d then ?i else fe"
  have jl: "j < e" using Suc.hyps(2) by simp
  have il: "?i < length d" using v by (rule probe_less)
  have ns: "\<not> stops d key ?i" using Suc.prems(3) jl by simp
  have w: "wrap (j + 1) = j + 1" using v jl Suc.prems(2) by (intro wrap_step [of "length d"]) simp_all
  have unf: "find_pos_loop cp d key seek start fe j ?i = find_pos_loop cp d key seek start ?fe' (j + 1) ?i'"
    using ns il w by (subst find_pos_loop.simps) (auto simp: stops_def)
  have "k = e - (j + 1)" using Suc.hyps(2) by simp
  moreover have "j + 1 \<le> e" using jl by simp
  moreover have "\<forall>m. j + 1 \<le> m \<and> m < e \<longrightarrow> \<not> stops d key (CollisionPolicy_next cp start m (length d))"
    using Suc.prems(3) by simp
  ultimately obtain r where r: "find_pos_loop cp d key seek start ?fe' (j + 1) ?i' = Some (Inr r)"
    and rs: "(if is_empty (d ! CollisionPolicy_next cp start e (length d))
           then (if ?fe' \<noteq> length d then r = ?fe'
                 else if seek
                 then (\<exists>m. j + 1 \<le> m \<and> m \<le> e \<and> r = CollisionPolicy_next cp start m (length d) \<and>
                        \<not> is_used (d ! r) \<and>
                        (\<forall>m'. j + 1 \<le> m' \<and> m' < m \<longrightarrow>
                           is_used (d ! CollisionPolicy_next cp start m' (length d))))
                 else r = CollisionPolicy_next cp start e (length d))
           else r = CollisionPolicy_next cp start e (length d))"
    using Suc.hyps(1) [of "j + 1" ?fe'] Suc.prems(2,4) by blast
  show ?case
  proof (cases "is_empty (d ! CollisionPolicy_next cp start e (length d)) \<and> fe = length d \<and> seek")
    case False
    then show ?thesis using r rs unf by (auto split: if_splits)
  next
    case True
    show ?thesis
    proof (cases "is_used (d ! ?i)")
      case u: True
      with True rs obtain m where m: "j + 1 \<le> m" "m \<le> e"
        "r = CollisionPolicy_next cp start m (length d)" "\<not> is_used (d ! r)"
        "\<forall>m'. j + 1 \<le> m' \<and> m' < m \<longrightarrow> is_used (d ! CollisionPolicy_next cp start m' (length d))"
        by auto
      have "\<forall>m'. j \<le> m' \<and> m' < m \<longrightarrow> is_used (d ! CollisionPolicy_next cp start m' (length d))"
      proof (intro allI impI)
        fix m' assume a: "j \<le> m' \<and> m' < m"
        show "is_used (d ! CollisionPolicy_next cp start m' (length d))"
        proof (cases "m' = j")
          case True then show ?thesis using u by simp
        next
          case False then show ?thesis using a m(5) by simp
        qed
      qed
      then have "\<exists>m. j \<le> m \<and> m \<le> e \<and> r = CollisionPolicy_next cp start m (length d) \<and>
          \<not> is_used (d ! r) \<and>
          (\<forall>m'. j \<le> m' \<and> m' < m \<longrightarrow> is_used (d ! CollisionPolicy_next cp start m' (length d)))"
        using m(1-4) by (intro exI [of _ m]) simp
      moreover have "find_pos_loop cp d key seek start fe j ?i = Some (Inr r)"
        using r unf True u by simp
      ultimately show ?thesis using True by (intro exI [of _ r]) simp
    next
      case nu: False
      then have ri: "r = ?i" using True rs il by simp
      have "\<exists>m. j \<le> m \<and> m \<le> e \<and> r = CollisionPolicy_next cp start m (length d) \<and>
          \<not> is_used (d ! r) \<and>
          (\<forall>m'. j \<le> m' \<and> m' < m \<longrightarrow> is_used (d ! CollisionPolicy_next cp start m' (length d)))"
        using ri nu jl by (intro exI [of _ j]) auto
      moreover have "find_pos_loop cp d key seek start fe j ?i = Some (Inr r)"
        using r unf True nu by simp
      ultimately show ?thesis using True by (intro exI [of _ r]) simp
    qed
  qed
qed

lemma find_pos_loop_diverges_aux:
  assumes "find_pos_loop cp d key seek start fe step i = Some y"
  shows "valid_size (length d) \<longrightarrow> (\<forall>i<length d. \<not> stops d key i) \<longrightarrow> i < length d \<longrightarrow> False"
proof (rule find_pos_loop.raw_induct
    [where P = "\<lambda>cp d key seek start fe step i y.
        valid_size (length d) \<longrightarrow> (\<forall>i<length d. \<not> stops d key i) \<longrightarrow> i < length d \<longrightarrow> False",
      OF _ assms])
  fix rec :: "CollisionPolicy \<Rightarrow> ('a, 'b) Element list \<Rightarrow> 'a \<Rightarrow> bool \<Rightarrow> nat \<Rightarrow> nat \<Rightarrow> nat \<Rightarrow> nat \<Rightarrow> nat result"
    and cp d key seek start fe step i y
  assume IH: "\<And>cp d key seek start fe step i y. rec cp d key seek start fe step i = Some y \<Longrightarrow>
      valid_size (length d) \<longrightarrow> (\<forall>i<length d. \<not> stops d key i) \<longrightarrow> i < length d \<longrightarrow> False"
    and body: "(if length d \<le> i then Some (Inl OutOfRange)
      else if is_empty (d ! i)
      then Some (Inr (if fe = length d then i else fe))
      else if is_used (d ! i) \<and> fst (node_value (d ! i)) = key then Some (Inr i)
      else rec cp d key seek start
             (if \<not> is_used (d ! i) \<and> seek \<and> fe = length d then i else fe)
             (wrap (step + 1))
             (CollisionPolicy_next cp start (wrap (step + 1)) (length d))) = Some y"
  show "valid_size (length d) \<longrightarrow> (\<forall>i<length d. \<not> stops d key i) \<longrightarrow> i < length d \<longrightarrow> False"
  proof (intro impI)
    assume v: "valid_size (length d)" and ns: "\<forall>i<length d. \<not> stops d key i" and il: "i < length d"
    let ?i' = "CollisionPolicy_next cp start (wrap (step + 1)) (length d)"
    have "?i' < length d" using v by (rule probe_less)
    moreover have "\<exists>fe'. rec cp d key seek start fe' (wrap (step + 1)) ?i' = Some y"
      using body ns il by (auto simp: stops_def split: if_splits)
    ultimately show False using IH v ns by blast
  qed
qed

lemma find_pos_loop_diverges:
  assumes "valid_size (length d)" "\<forall>i<length d. \<not> stops d key i" "i < length d"
  shows "find_pos_loop cp d key seek start fe step i = None"
proof (cases "find_pos_loop cp d key seek start fe step i")
  case None then show ?thesis .
next
  case (Some y)
  then show ?thesis using find_pos_loop_diverges_aux [OF Some] assms by blast
qed

lemma index_less: "valid_size (length d) \<Longrightarrow> index hf d key < length d"
  using valid_size_pos [of "length d"]
  by (simp add: index_def MaskRangeHashing_hash_def and_size_dec)

lemma find_pos_diverges:
  assumes "valid_size (length (m_data t))" "\<forall>i<length (m_data t). \<not> stops (m_data t) key i"
  shows "find_pos cp hf t key seek = None"
  unfolding find_pos_def
  by (rule find_pos_loop_diverges [OF assms]) (rule index_less [OF assms(1)])

subsection \<open>Links\<close>

lemma first_or_simps [simp]: "first_or [] fin = fin" "first_or (q # qs) fin = q"
  by (simp_all add: first_or_def)

lemma last_or_simps [simp]: "last_or [] prv = prv" "last_or (qs @ [q]) prv = q"
  by (simp_all add: last_or_def)

lemma last_or_Cons: "last_or (q # qs) prv = last_or qs q"
  by (simp add: last_or_def)

lemma first_or_append: "first_or (xs @ ys) fin = first_or xs (first_or ys fin)"
  by (cases xs) simp_all

lemma fwd_append: "fwd d (xs @ ys) fin = (fwd d xs (first_or ys fin) \<and> fwd d ys fin)"
  by (induction xs) (auto simp: first_or_append)

lemma bwd_append: "bwd d prv (xs @ ys) = (bwd d prv xs \<and> bwd d (last_or xs prv) ys)"
  by (induction xs arbitrary: prv) (auto simp: last_or_Cons)

lemma fwd_cong:
  "(\<And>p. p \<in> set ps \<Longrightarrow> node_next (d' ! p) = node_next (d ! p)) \<Longrightarrow> fwd d' ps fin = fwd d ps fin"
  by (induction ps) auto

lemma bwd_cong:
  "(\<And>p. p \<in> set ps \<Longrightarrow> node_prev (d' ! p) = node_prev (d ! p)) \<Longrightarrow> bwd d' prv ps = bwd d prv ps"
  by (induction ps arbitrary: prv) auto

lemma fwd_set_last:
  assumes "fwd d (xs @ [x]) fin" "x \<notin> set xs"
    "\<And>p. p \<in> set xs \<Longrightarrow> node_next (d' ! p) = node_next (d ! p)"
    "node_next (d' ! x) = fin'"
  shows "fwd d' (xs @ [x]) fin'"
proof -
  have "fwd d xs x" using assms(1) by (simp add: fwd_append)
  then have "fwd d' xs x" using assms(3) by (simp add: fwd_cong [of xs d' d])
  then show ?thesis using assms(4) by (simp add: fwd_append)
qed

lemma used_idx_update:
  "i < length d \<Longrightarrow>
   used_idx (d[i := e]) = (if is_used e then insert i (used_idx d) else used_idx d - {i})"
  by (auto simp: used_idx_def nth_list_update)

lemma used_idx_less: "i \<in> used_idx d \<Longrightarrow> i < length d"
  by (simp add: used_idx_def)

lemma used_idx_used: "i \<in> used_idx d \<Longrightarrow> is_used (d ! i)"
  by (simp add: used_idx_def)

lemma m_end_not_index: "valid_size (length d) \<Longrightarrow> i < length d \<Longrightarrow> i \<noteq> m_end"
  using valid_size_le [of "length d"] by (auto simp: m_end_def)

lemma is_used_Node: "is_used e \<Longrightarrow> Node (node_value e) (node_next e) (node_prev e) = e"
  by (cases e) simp_all

lemma get_node_used: "i < length d \<Longrightarrow> is_used (d ! i) \<Longrightarrow> get_node d i = Inr (d ! i)"
  by (simp add: get_node_def)

lemma strip_used: "is_used e \<Longrightarrow> strip e = Node (node_value e) 0 0"
  by (cases e) simp_all

lemma insert_at_effect:
  assumes tr: "traversal t ps" and pl: "pos < length (m_data t)"
    and nu: "\<not> is_used (m_data t ! pos)" and v: "valid_size (length (m_data t))"
  shows "\<exists>t'. insert_at t pos kv = Inr t' \<and> traversal t' (pos # ps) \<and>
           map strip (m_data t') = (map strip (m_data t))[pos := Node kv 0 0] \<and>
           m_size t' = wrap (m_size t + 1)"
proof (cases ps)
  case Nil
  then have b: "m_begin t = m_end" and u: "used_idx (m_data t) = {}"
    using tr by (simp_all add: traversal_def)
  let ?t' = "t\<lparr>m_data := (m_data t)[pos := Node kv m_end m_end], m_begin := pos, m_size := wrap (m_size t + 1)\<rparr>"
  have "insert_at t pos kv = Inr ?t'" using pl b by (simp add: insert_at_def)
  moreover have "traversal ?t' [pos]"
    using pl u by (simp add: traversal_def used_idx_update)
  moreover have "map strip (m_data ?t') = (map strip (m_data t))[pos := Node kv 0 0]"
    by (simp add: map_update)
  ultimately show ?thesis using Nil by simp
next
  case (Cons b rest)
  let ?d = "m_data t"
  have mb: "m_begin t = b" and fw: "fwd ?d (b # rest) m_end" and bw: "bwd ?d m_end (b # rest)"
    and di: "distinct (b # rest)" and se: "set (b # rest) = used_idx ?d"
    using tr Cons by (simp_all add: traversal_def)
  have bu: "b \<in> used_idx ?d" using se by auto
  then have bl: "b < length ?d" and bused: "is_used (?d ! b)"
    by (simp_all add: used_idx_def)
  have bne: "b \<noteq> m_end" using v bl by (rule m_end_not_index)
  have bp: "b \<noteq> pos" using bused nu by auto
  have pn: "pos \<notin> set (b # rest)" using se nu by (auto simp: used_idx_def)
  let ?d1 = "?d[pos := Node kv b m_end]"
  let ?d2 = "?d1[b := Node (node_value (?d ! b)) (node_next (?d ! b)) pos]"
  let ?t' = "t\<lparr>m_data := ?d2, m_begin := pos, m_size := wrap (m_size t + 1)\<rparr>"
  have sp: "set_prev ?d1 b pos = Inr ?d2"
    using bl bused bp by (simp add: set_prev_def get_node_def)
  have ia: "insert_at t pos kv = Inr ?t'"
    using pl mb bne sp by (simp add: insert_at_def)
  have n2: "\<And>p. p \<in> set (b # rest) \<Longrightarrow> node_next (?d2 ! p) = node_next (?d ! p)"
    using pn bl pl by (auto simp: nth_list_update)
  have p2: "\<And>p. p \<in> set rest \<Longrightarrow> node_prev (?d2 ! p) = node_prev (?d ! p)"
    using pn di bl pl by (auto simp: nth_list_update)
  have "fwd ?d2 (pos # b # rest) m_end"
    using fw fwd_cong [of "b # rest" ?d2 ?d m_end, OF n2] bp bl pl by (simp add: nth_list_update)
  moreover have "bwd ?d2 m_end (pos # b # rest)"
    using bw bwd_cong [of rest ?d2 ?d b, OF p2] bp bl pl by (simp add: nth_list_update)
  moreover have "used_idx ?d2 = insert pos (used_idx ?d)"
    using bl pl bu by (auto simp: used_idx_update)
  ultimately have "traversal ?t' (pos # b # rest)"
    using di se pn by (simp add: traversal_def)
  moreover have "map strip ?d2 = (map strip ?d)[pos := Node kv 0 0]"
  proof -
    have "map strip ?d2 = (map strip ?d1)[b := strip (?d ! b)]"
      using bused by (simp add: map_update strip_used [symmetric])
    also have "\<dots> = map strip ?d1"
      using bl bp by (simp add: list_update_same_conv nth_list_update)
    finally show ?thesis by (simp add: map_update)
  qed
  ultimately show ?thesis using ia Cons by simp
qed

lemma link_nodes_effect:
  assumes v: "valid_size (length (m_data t))"
    and l: "left = m_end \<or> left \<in> used_idx (m_data t)"
    and r: "right = m_end \<or> right \<in> used_idx (m_data t)"
  shows "\<exists>t'. link_nodes t left right = Inr t' \<and>
           map strip (m_data t') = map strip (m_data t) \<and>
           (\<forall>p<length (m_data t). node_next (m_data t' ! p) =
              (if p = left then right else node_next (m_data t ! p))) \<and>
           (\<forall>p<length (m_data t). node_prev (m_data t' ! p) =
              (if p = right then left else node_prev (m_data t ! p))) \<and>
           m_begin t' = (if left = m_end then right else m_begin t) \<and>
           m_size t' = m_size t"
proof -
  let ?d = "m_data t"
  let ?d1 = "if left = m_end then ?d
             else ?d[left := Node (node_value (?d ! left)) right (node_prev (?d ! left))]"
  let ?t1 = "if left = m_end then t\<lparr>m_begin := right\<rparr> else t\<lparr>m_data := ?d1\<rparr>"
  let ?d2 = "if right = m_end then ?d1
             else ?d1[right := Node (node_value (?d1 ! right)) (node_next (?d1 ! right)) left]"
  let ?t2 = "?t1\<lparr>m_data := ?d2\<rparr>"
  have ll: "left \<noteq> m_end \<Longrightarrow> left < length ?d \<and> is_used (?d ! left)"
    using l by (auto simp: used_idx_def)
  have rl: "right \<noteq> m_end \<Longrightarrow> right < length ?d \<and> is_used (?d ! right)"
    using r by (auto simp: used_idx_def)
  have len1: "length ?d1 = length ?d" by simp
  have u1: "right \<noteq> m_end \<Longrightarrow> is_used (?d1 ! right)"
    using rl ll by (auto simp: nth_list_update)
  have s1: "(if left \<noteq> m_end
            then (case set_next ?d left right of Inl e \<Rightarrow> Inl e | Inr d \<Rightarrow> Inr (t\<lparr>m_data := d\<rparr>))
            else Inr (t\<lparr>m_begin := right\<rparr>)) = Inr ?t1"
    using ll by (cases "left = m_end") (simp_all add: set_next_def get_node_def)
  have d1: "m_data ?t1 = ?d1" by simp
  have s2: "link_nodes t left right = Inr ?t2"
    unfolding link_nodes_def s1
    using rl u1 by (cases "left = m_end"; cases "right = m_end"; simp add: set_prev_def get_node_def)
  have st1: "map strip ?d1 = map strip ?d"
    using ll by (auto simp: map_update strip_used [symmetric] list_update_same_conv)
  have st2: "map strip ?d2 = map strip ?d1"
    using rl u1 by (cases "right = m_end") (simp_all add: map_update strip_used [symmetric] list_update_same_conv)
  have nx: "\<forall>p<length ?d. node_next (?d2 ! p) = (if p = left then right else node_next (?d ! p))"
    using v ll rl by (auto simp: nth_list_update dest: m_end_not_index)
  have pv: "\<forall>p<length ?d. node_prev (?d2 ! p) = (if p = right then left else node_prev (?d ! p))"
    using v ll rl by (auto simp: nth_list_update dest: m_end_not_index)
  show ?thesis
    using s2 st1 st2 nx pv by (intro exI [of _ ?t2]) auto
qed

lemma probe_sequence_eq:
  assumes "valid_size n" "start < n"
  shows "probe_sequence cp start n n = map (\<lambda>step. CollisionPolicy_next cp start step n) [0..<n]"
proof -
  have n: "0 < n" using assms(1) by (rule valid_size_pos)
  then have "[0..<n] = 0 # [1..<n]" by (simp add: upt_rec)
  then show ?thesis
    using n assms by (simp add: probe_sequence_def probe_zero)
qed

text \<open>
  C8. Both probing policies are functions of their three arguments alone. For every
  power-of-two table size \<open>n\<close> (up to \<open>2 ^ 63\<close>, the largest a 64-bit \<open>size_t\<close> holds) and
  every start index below \<open>n\<close>, the first \<open>n\<close> indices of the probe sequence are pairwise
  distinct and are exactly the slot indices \<open>0, \<dots>, n - 1\<close>; the quadratic variant computes
  \<open>(start + (step\<^sup>2 + step) / 2) mod n\<close> and the linear one \<open>(start + step) mod n\<close>, wrap-around
  of the 64-bit arithmetic included.
\<close>

theorem probe_sequence_enumerates_all_slots:
  assumes "valid_size n" "start < n"
  shows "distinct (probe_sequence cp start n n) \<and>
         set (probe_sequence cp start n n) = {0..<n} \<and>
         length (probe_sequence cp start n n) = n \<and>
         QuadraticProbing_next start step n = (start + (step * step + step) div 2) mod n \<and>
         LinearProbing_next start step n = (start + step) mod n"
proof -
  let ?f = "\<lambda>step. CollisionPolicy_next cp start step n"
  have eq: "probe_sequence cp start n n = map ?f [0..<n]"
    using assms by (rule probe_sequence_eq)
  have "inj_on ?f (set [0..<n])"
    using probe_inj_on [OF assms(1), of cp start] by (simp add: lessThan_atLeast0)
  then have "distinct (map ?f [0..<n])" by (simp add: distinct_map)
  moreover have "set (map ?f [0..<n]) = {0..<n}"
    using probe_surj [OF assms(1), of cp start] by (simp add: lessThan_atLeast0)
  ultimately show ?thesis
    using eq assms(1) by (simp add: QuadraticProbing_next_eq LinearProbing_next_eq)
qed

lemma valid_size_64: "valid_size 64"
proof -
  have "(64::nat) = 2 ^ 6" by simp
  then show ?thesis unfolding valid_size_def by (intro exI [of _ 6]) simp
qed

theorem probe_sequence_enumerates_all_slots_witness:
  "distinct (probe_sequence QuadraticProbing 5 64 64) \<and>
   set (probe_sequence QuadraticProbing 5 64 64) = {0..<64} \<and>
   length (probe_sequence QuadraticProbing 5 64 64) = 64 \<and>
   QuadraticProbing_next 5 3 64 = 11 \<and>
   LinearProbing_next 5 3 64 = 8"
  using probe_sequence_enumerates_all_slots [OF valid_size_64, of 5 QuadraticProbing 3] by simp

end
